theory Spec2Isabelle
  imports Complex_Main
begin

section \<open>Text\<close>

text \<open>
  A Python \<open>str\<close> is a sequence of Unicode code points and \<open>len\<close> counts code points,
  so a string is modelled as a list of code points (natural numbers), not as bytes.
  \<open>u\<close> turns an ASCII literal of the source into such a list.
\<close>

type_synonym str = "nat list"

definition u :: "string \<Rightarrow> str" where
  "u s = map of_char s"

text \<open>
  \<open>str.isspace\<close> for one code point; it is also what \<open>str.strip()\<close> removes and what
  \<open>\s\<close> matches in a \<open>str\<close> pattern.
\<close>

definition is_space :: "nat \<Rightarrow> bool" where
  "is_space c = (c \<in> set [9, 10, 11, 12, 13, 28, 29, 30, 31, 32, 133, 160, 5760,
                            8232, 8233, 8239, 8287, 12288] \<or> (8192 \<le> c \<and> c \<le> 8202))"

text \<open>The line boundaries of \<open>str.splitlines\<close>.\<close>

definition is_linebreak :: "nat \<Rightarrow> bool" where
  "is_linebreak c = (c \<in> set [10, 11, 12, 13, 28, 29, 30, 133, 8232, 8233])"

text \<open>
  \<open>\w\<close> in a \<open>str\<close> pattern is an alphanumeric code point or the underscore. Below 128
  the alphanumerics are the ASCII letters and digits; above, they come from the Unicode
  database, which is not part of the repository and is taken as the parameter \<open>U\<close>.
\<close>

definition ascii_alnum :: "nat \<Rightarrow> bool" where
  "ascii_alnum c = ((48 \<le> c \<and> c \<le> 57) \<or> (65 \<le> c \<and> c \<le> 90) \<or> (97 \<le> c \<and> c \<le> 122))"

definition is_word :: "(nat \<Rightarrow> bool) \<Rightarrow> nat \<Rightarrow> bool" where
  "is_word U c = (c = 95 \<or> (if c < 128 then ascii_alnum c else U c))"

definition lstrip_with :: "(nat \<Rightarrow> bool) \<Rightarrow> str \<Rightarrow> str" where
  "lstrip_with p s = dropWhile p s"

definition rstrip_with :: "(nat \<Rightarrow> bool) \<Rightarrow> str \<Rightarrow> str" where
  "rstrip_with p s = rev (dropWhile p (rev s))"

text \<open>\<open>s.strip()\<close>, \<open>s.lstrip(chars)\<close>, \<open>s.rstrip(chars)\<close>, \<open>s.startswith(p)\<close>.\<close>

definition strip :: "str \<Rightarrow> str" where
  "strip s = lstrip_with is_space (rstrip_with is_space s)"

definition lstrip_chars :: "str \<Rightarrow> str \<Rightarrow> str" where
  "lstrip_chars chars s = lstrip_with (\<lambda>c. c \<in> set chars) s"

definition rstrip_chars :: "str \<Rightarrow> str \<Rightarrow> str" where
  "rstrip_chars chars s = rstrip_with (\<lambda>c. c \<in> set chars) s"

definition startswith :: "str \<Rightarrow> str \<Rightarrow> bool" where
  "startswith p s = (take (length p) s = p)"

text \<open>\<open>sep.join(parts)\<close>.\<close>

fun join :: "str \<Rightarrow> str list \<Rightarrow> str" where
  "join sep [] = []"
| "join sep [x] = x"
| "join sep (x # y # ys) = x @ sep @ join sep (y # ys)"

text \<open>
  \<open>s.splitlines()\<close>: scan to the next line boundary, emit the line without it, skip
  the boundary (\<open>\r\n\<close> counts as one), and go on while text is left. Text that ends
  with a boundary therefore yields no final empty line.
\<close>

function splitlines :: "str \<Rightarrow> str list" where
  "splitlines s =
     (if s = [] then []
      else takeWhile (\<lambda>c. \<not> is_linebreak c) s #
           (case dropWhile (\<lambda>c. \<not> is_linebreak c) s of
              [] \<Rightarrow> []
            | c # cs \<Rightarrow> splitlines (if c = 13 \<and> take 1 cs = [10] then tl cs else cs)))"
  by pat_completeness auto
termination
proof (relation "measure length", goal_cases)
  case 1
  show ?case by simp
next
  case (2 s c cs)
  have "length (dropWhile (\<lambda>c. \<not> is_linebreak c) s) \<le> length s"
    by (rule length_dropWhile_le)
  with 2 have "Suc (length cs) \<le> length s" by simp
  then show ?case by auto
qed

declare splitlines.simps [simp del]

section \<open>Regular expressions\<close>

text \<open>
  The fragment of \<open>re\<close> the source uses: a character class, a greedy \<open>*\<close> or \<open>+\<close> of
  a character class, sequence, alternation and the anchor \<open>^\<close>. \<open>rems r (i, s)\<close> lists,
  in the order in which the backtracking matcher tries them, the states (position, rest
  of the subject) in which a match of \<open>r\<close> that starts at position \<open>i\<close> with \<open>s\<close> left
  can end.
\<close>

datatype re =
    Cls "nat \<Rightarrow> bool"
  | Star "nat \<Rightarrow> bool"
  | Plus "nat \<Rightarrow> bool"
  | Seq re re
  | Alt re re
  | Bol

fun rems :: "re \<Rightarrow> nat \<times> str \<Rightarrow> (nat \<times> str) list" where
  "rems (Cls p) (i, []) = []"
| "rems (Cls p) (i, c # cs) = (if p c then [(Suc i, cs)] else [])"
| "rems (Star p) (i, []) = [(i, [])]"
| "rems (Star p) (i, c # cs) =
     (if p c then rems (Star p) (Suc i, cs) @ [(i, c # cs)] else [(i, c # cs)])"
| "rems (Plus p) (i, []) = []"
| "rems (Plus p) (i, c # cs) = (if p c then rems (Star p) (Suc i, cs) else [])"
| "rems (Seq r1 r2) x = concat (map (rems r2) (rems r1 x))"
| "rems (Alt r1 r2) x = rems r1 x @ rems r2 x"
| "rems Bol (i, s) = (if i = 0 then [(i, s)] else [])"

definition Chr :: "char \<Rightarrow> re" where
  "Chr c = Cls (\<lambda>x. x = of_char c)"

fun seq :: "re list \<Rightarrow> re" where
  "seq [] = Star (\<lambda>c. False)"
| "seq [r] = r"
| "seq (r # rs) = Seq r (seq rs)"

text \<open>\<open>re.match(r, s)\<close>: the first way to match at position 0, as the end position.\<close>

definition re_match :: "re \<Rightarrow> str \<Rightarrow> nat option" where
  "re_match r s = (case rems r (0, s) of [] \<Rightarrow> None | x # xs \<Rightarrow> Some (fst x))"

lemma rems_length:
  "(j, t) \<in> set (rems r x) \<Longrightarrow> fst x \<le> j \<and> length t + (j - fst x) = length (snd x)"
proof (induction r x arbitrary: j t rule: rems.induct)
  case (4 p i c cs)
  then show ?case by (fastforce split: if_splits)
next
  case (6 p i c cs)
  then show ?case by (fastforce split: if_splits)
next
  case (7 r1 r2 x)
  from "7.prems" obtain y where y: "y \<in> set (rems r1 x)"
    and jt: "(j, t) \<in> set (rems r2 y)" by auto
  obtain k m where km: "y = (k, m)" by (cases y)
  from "7.IH"(1) [of k m] y km have a: "fst x \<le> k \<and> length m + (k - fst x) = length (snd x)"
    by simp
  from "7.IH"(2) [OF y jt] km have b: "k \<le> j \<and> length t + (j - k) = length m"
    by simp
  from a b show ?case by arith
qed (auto split: if_splits)

lemma rems_hd_shorter: "rems r (i, s) = (j, t) # xs \<Longrightarrow> i < j \<Longrightarrow> length t < length s"
  using rems_length [of j t r "(i, s)"] by simp

text \<open>
  \<open>re.sub(r, "", s)\<close>: going from left to right, a non-empty match is removed and the
  scan goes on behind it; where there is none, one character is copied. (The patterns of
  the source match no empty string, see \<open>patterns_consume\<close> below.)
\<close>

function re_sub_del :: "re \<Rightarrow> nat \<Rightarrow> str \<Rightarrow> str" where
  "re_sub_del r i s =
     (case rems r (i, s) of
        (j, t) # xs \<Rightarrow>
          (if i < j then re_sub_del r j t
           else (case s of [] \<Rightarrow> [] | c # cs \<Rightarrow> c # re_sub_del r (Suc i) cs))
      | [] \<Rightarrow> (case s of [] \<Rightarrow> [] | c # cs \<Rightarrow> c # re_sub_del r (Suc i) cs))"
  by pat_completeness auto
termination
  by (relation "measure (\<lambda>(r, i, s). length s)") (auto dest: rems_hd_shorter)

declare re_sub_del.simps [simp del]

text \<open>
  \<open>r.finditer(s)\<close>, as the (start, end) positions of the matches: the scan tries each
  position from left to right and goes on behind a match.
\<close>

function finditer :: "re \<Rightarrow> nat \<Rightarrow> str \<Rightarrow> (nat \<times> nat) list" where
  "finditer r i s =
     (case rems r (i, s) of
        (j, t) # xs \<Rightarrow>
          (if i < j then (i, j) # finditer r j t
           else (i, j) # (case s of [] \<Rightarrow> [] | c # cs \<Rightarrow> finditer r (Suc i) cs))
      | [] \<Rightarrow> (case s of [] \<Rightarrow> [] | c # cs \<Rightarrow> finditer r (Suc i) cs))"
  by pat_completeness auto
termination
  by (relation "measure (\<lambda>(r, i, s). length s)") (auto dest: rems_hd_shorter)

declare finditer.simps [simp del]

section \<open>The patterns of the source\<close>

text \<open>\<^verbatim>\<open>^\s*-\s\[( |x|X)\]\s+\<close>\<close>

definition checkbox_re :: re where
  "checkbox_re = seq [Bol, Star is_space, Chr CHR ''-'', Cls is_space, Chr CHR ''['',
     Alt (Chr CHR '' '') (Alt (Chr CHR ''x'') (Chr CHR ''X'')), Chr CHR '']'', Plus is_space]"

text \<open>\<^verbatim>\<open>^\s*-\s\[(x|X)\]\s+\<close>\<close>

definition checked_re :: re where
  "checked_re = seq [Bol, Star is_space, Chr CHR ''-'', Cls is_space, Chr CHR ''['',
     Alt (Chr CHR ''x'') (Chr CHR ''X''), Chr CHR '']'', Plus is_space]"

text \<open>\<^verbatim>\<open>^\s*[-*]\s+\<close>\<close>

definition bullet_re :: re where
  "bullet_re = seq [Bol, Star is_space, Cls (\<lambda>c. c \<in> set (u ''-*'')), Plus is_space]"

text \<open>\<open>MENTION_RE\<close>: \<^verbatim>\<open>@\w+\<close>\<close>

definition MENTION_RE :: "(nat \<Rightarrow> bool) \<Rightarrow> re" where
  "MENTION_RE U = seq [Chr CHR ''@'', Plus (is_word U)]"

text \<open>
  Every match of a pattern of the source consumes at least one character, so the scans
  of \<open>re_sub_del\<close> and \<open>finditer\<close> never meet an empty match.
\<close>

fun min_len :: "re \<Rightarrow> nat" where
  "min_len (Cls p) = 1"
| "min_len (Star p) = 0"
| "min_len (Plus p) = 1"
| "min_len (Seq r1 r2) = min_len r1 + min_len r2"
| "min_len (Alt r1 r2) = min (min_len r1) (min_len r2)"
| "min_len Bol = 0"

lemma rems_min_len: "(j, t) \<in> set (rems r x) \<Longrightarrow> fst x + min_len r \<le> j"
proof (induction r x arbitrary: j t rule: rems.induct)
  case (4 p i c cs)
  then show ?case by (fastforce split: if_splits)
next
  case (6 p i c cs)
  from "6.prems" have "p c" and "(j, t) \<in> set (rems (Star p) (Suc i, cs))"
    by (auto split: if_splits)
  from rems_length [OF this(2)] show ?case by simp
next
  case (7 r1 r2 x)
  from "7.prems" obtain y where y: "y \<in> set (rems r1 x)"
    and jt: "(j, t) \<in> set (rems r2 y)" by auto
  obtain k m where km: "y = (k, m)" by (cases y)
  from "7.IH"(1) [of k m] y km have a: "fst x + min_len r1 \<le> k" by simp
  from "7.IH"(2) [OF y jt] km have b: "k + min_len r2 \<le> j" by simp
  from a b show ?case by simp
next
  case (8 r1 r2 x)
  from "8.prems" have "(j, t) \<in> set (rems r1 x) \<or> (j, t) \<in> set (rems r2 x)" by simp
  with "8.IH" show ?case by fastforce
qed (auto split: if_splits)

lemma patterns_consume:
  "0 < min_len checkbox_re" "0 < min_len checked_re" "0 < min_len bullet_re"
  "0 < min_len (MENTION_RE U)"
  by (simp_all add: checkbox_re_def checked_re_def bullet_re_def MENTION_RE_def Chr_def)

section \<open>Blocks and the parser\<close>

record block =
  kind :: str
  "text" :: str
  level :: int
  checked :: bool

definition Block :: "str \<Rightarrow> str \<Rightarrow> int \<Rightarrow> bool \<Rightarrow> block" where
  "Block k t l c = \<lparr>kind = k, text = t, level = l, checked = c\<rparr>"

text \<open>
  The body of the loop of \<open>parse_markdown\<close> for one line: the block that the first
  branch whose test succeeds appends.
\<close>

definition parse_line :: "str \<Rightarrow> block" where
  "parse_line line =
     (let raw = rstrip_chars [10] line in
      if strip raw = [] then Block (u ''blank'') [] 0 False
      else if startswith (u ''# '') raw then Block (u ''h1'') (strip (drop 2 raw)) 0 False
      else if startswith (u ''## '') raw then Block (u ''h2'') (strip (drop 3 raw)) 0 False
      else if startswith (u ''### '') raw then Block (u ''h3'') (strip (drop 4 raw)) 0 False
      else if re_match checkbox_re raw \<noteq> None then
        Block (u ''checkbox'') (strip (re_sub_del checkbox_re 0 raw))
          ((int (length raw) - int (length (lstrip_chars [32] raw))) div 2)
          (re_match checked_re raw \<noteq> None)
      else if re_match bullet_re raw \<noteq> None then
        Block (u ''bullet'') (strip (re_sub_del bullet_re 0 raw))
          ((int (length raw) - int (length (lstrip_chars [32] raw))) div 2) False
      else if startswith (u ''Meeting recorded by:'') raw \<or> startswith (u ''Duration:'') raw
        then Block (u ''footer'') (strip raw) 0 False
      else if strip raw = u ''---'' then Block (u ''blank'') [] 0 False
      else Block (u ''p'') (strip raw) 0 False)"

definition parse_markdown :: "str \<Rightarrow> block list" where
  "parse_markdown md_text = fold (\<lambda>line blocks. blocks @ [parse_line line]) (splitlines md_text) []"

section \<open>Requests\<close>

text \<open>
  The requests are the dictionaries of the Docs API that the source builds. A style
  dictionary holds only the keys that were set: an absent key is \<open>None\<close>. A dimension
  \<open>{"magnitude": m, "unit": x}\<close> is the pair \<open>(m, x)\<close>; the colour is the dictionary
  of its channels.
\<close>

record paragraphStyle =
  namedStyleType :: "str option"
  indentStart :: "(int \<times> str) option"

record textStyle =
  bold :: "bool option"
  italic :: "bool option"
  fontSize :: "(int \<times> str) option"
  foregroundColor :: "(str \<times> real) list option"

datatype request =
    InsertText int str
  | UpdateParagraphStyle int int paragraphStyle str
  | UpdateTextStyle int int textStyle str
  | CreateParagraphBullets int int str

text \<open>
  \<open>_paragraph_style_request(start, end, named_style_type, indent_pt)\<close>; the test
  \<open>if named_style_type:\<close> fails for \<open>None\<close> and for the empty string.
\<close>

definition paragraph_style_request :: "int \<Rightarrow> int \<Rightarrow> str option \<Rightarrow> int option \<Rightarrow> request" where
  "paragraph_style_request start end named_style_type indent_pt =
     (let style = \<lparr>namedStyleType = None, indentStart = None\<rparr>;
          fields = [];
          (style, fields) =
            (if named_style_type \<noteq> None \<and> named_style_type \<noteq> Some []
             then (style\<lparr>namedStyleType := named_style_type\<rparr>, fields @ [u ''namedStyleType''])
             else (style, fields));
          (style, fields) =
            (case indent_pt of
               Some pt \<Rightarrow> (style\<lparr>indentStart := Some (pt, u ''PT'')\<rparr>, fields @ [u ''indentStart''])
             | None \<Rightarrow> (style, fields))
      in UpdateParagraphStyle start end style (join (u '','') fields))"

text \<open>\<open>_text_style_request(start, end, bold, italic, font_size_pt, rgb)\<close>\<close>

definition text_style_request ::
  "int \<Rightarrow> int \<Rightarrow> bool option \<Rightarrow> bool option \<Rightarrow> int option \<Rightarrow> (str \<times> real) list option \<Rightarrow> request" where
  "text_style_request start end bold_arg italic_arg font_size_pt rgb =
     (let style = \<lparr>bold = None, italic = None, fontSize = None, foregroundColor = None\<rparr>;
          fields = [];
          (style, fields) =
            (case bold_arg of
               Some v \<Rightarrow> (style\<lparr>bold := Some v\<rparr>, fields @ [u ''bold''])
             | None \<Rightarrow> (style, fields));
          (style, fields) =
            (case italic_arg of
               Some v \<Rightarrow> (style\<lparr>italic := Some v\<rparr>, fields @ [u ''italic''])
             | None \<Rightarrow> (style, fields));
          (style, fields) =
            (case font_size_pt of
               Some pt \<Rightarrow> (style\<lparr>fontSize := Some (pt, u ''PT'')\<rparr>, fields @ [u ''fontSize''])
             | None \<Rightarrow> (style, fields));
          (style, fields) =
            (case rgb of
               Some col \<Rightarrow> (style\<lparr>foregroundColor := Some col\<rparr>, fields @ [u ''foregroundColor''])
             | None \<Rightarrow> (style, fields))
      in UpdateTextStyle start end style (join (u '','') fields))"

section \<open>The compiler\<close>

record span =
  block :: block
  start :: int
  "end" :: int

text \<open>
  The first loop of \<open>markdown_to_google_doc\<close>, on the state
  \<open>(cursor, text_parts, spans)\<close>.
\<close>

definition span_step :: "block \<Rightarrow> int \<times> str list \<times> span list \<Rightarrow> int \<times> str list \<times> span list" where
  "span_step b st =
     (case st of (cursor, text_parts, spans) \<Rightarrow>
        let start = cursor;
            line = text b;
            text_parts = text_parts @ [line @ [10]];
            cursor = cursor + (int (length line) + 1);
            end = cursor
        in (cursor, text_parts, spans @ [\<lparr>block = b, start = start, end = end\<rparr>]))"

definition layout :: "block list \<Rightarrow> int \<times> str list \<times> span list" where
  "layout blocks = fold span_step blocks (1, [], [])"

definition spans_of :: "block list \<Rightarrow> span list" where
  "spans_of blocks = snd (snd (layout blocks))"

definition full_text :: "block list \<Rightarrow> str" where
  "full_text blocks = concat (fst (snd (layout blocks)))"

text \<open>The loop "Apply heading and footer styles", for one span.\<close>

definition heading_footer_step :: "span \<Rightarrow> request list \<Rightarrow> request list" where
  "heading_footer_step s requests =
     (let b = block s in
      if kind b = u ''h1'' then
        requests @ [paragraph_style_request (start s) (end s) (Some (u ''HEADING_1'')) None]
      else if kind b = u ''h2'' then
        requests @ [paragraph_style_request (start s) (end s) (Some (u ''HEADING_2'')) None]
      else if kind b = u ''h3'' then
        requests @ [paragraph_style_request (start s) (end s) (Some (u ''HEADING_3'')) None]
      else if kind b = u ''footer'' then
        requests @ [text_style_request (start s) (end s) None (Some True) (Some 10)
          (Some [(u ''red'', 0.4), (u ''green'', 0.4), (u ''blue'', 0.4)])]
      else requests)"

text \<open>The loop "Bullets + checkbox bullets", for one span.\<close>

definition bullet_step :: "span \<Rightarrow> request list \<Rightarrow> request list" where
  "bullet_step s requests =
     (let b = block s in
      if kind b = u ''bullet'' then
        (let requests = requests @
               [CreateParagraphBullets (start s) (end s) (u ''BULLET_DISC_CIRCLE_SQUARE'')]
         in if level b > 0
            then requests @ [paragraph_style_request (start s) (end s) None (Some (18 * level b))]
            else requests)
      else if kind b = u ''checkbox'' then
        (let requests = requests @
               [CreateParagraphBullets (start s) (end s) (u ''BULLET_CHECKBOX'')]
         in if level b > 0
            then requests @ [paragraph_style_request (start s) (end s) None (Some (18 * level b))]
            else requests)
      else requests)"

text \<open>The loop "Style @mentions", for one span.\<close>

definition mention_step :: "(nat \<Rightarrow> bool) \<Rightarrow> span \<Rightarrow> request list \<Rightarrow> request list" where
  "mention_step U s requests =
     (let b = block s in
      if text b = [] then requests
      else fold (\<lambda>m requests.
                   let a = start s + int (fst m);
                       z = start s + int (snd m)
                   in requests @ [text_style_request a z (Some True) None None None])
             (finditer (MENTION_RE U) 0 (text b)) requests)"

text \<open>
  The list \<open>requests\<close> that \<open>markdown_to_google_doc\<close> builds from the blocks and
  hands to \<open>batchUpdate\<close>.
\<close>

definition doc_requests :: "(nat \<Rightarrow> bool) \<Rightarrow> block list \<Rightarrow> request list" where
  "doc_requests U blocks =
     (let spans = spans_of blocks;
          requests = [] @ [InsertText 1 (full_text blocks)];
          requests = fold heading_footer_step spans requests;
          requests = fold bullet_step spans requests;
          requests = fold (mention_step U) spans requests
      in requests)"

text \<open>
  \<open>markdown_to_google_doc\<close>, as the body of its one \<open>batchUpdate\<close> call. Creating the
  document and sending the batch are calls of the Docs service and are not modelled.
\<close>

definition markdown_to_google_doc :: "(nat \<Rightarrow> bool) \<Rightarrow> str \<Rightarrow> request list" where
  "markdown_to_google_doc U md_text = doc_requests U (parse_markdown md_text)"

section \<open>Loops that append\<close>

lemma fold_snoc_map: "fold (\<lambda>x acc. acc @ [f x]) xs acc = acc @ map f xs"
  by (induction xs arbitrary: acc) simp_all

lemma parse_markdown_map: "parse_markdown md_text = map parse_line (splitlines md_text)"
  by (simp add: parse_markdown_def fold_snoc_map)

lemmas text_defs = u_def is_space_def is_linebreak_def strip_def lstrip_with_def rstrip_with_def
  lstrip_chars_def rstrip_chars_def startswith_def

lemmas parse_defs = parse_markdown_map splitlines.simps parse_line_def Block_def re_match_def
  checkbox_re_def checked_re_def bullet_re_def Chr_def re_sub_del.simps text_defs

section \<open>The layout\<close>

text \<open>The spans that the first loop appends when it starts with the cursor at \<open>c\<close>.\<close>

fun spans_from :: "int \<Rightarrow> block list \<Rightarrow> span list" where
  "spans_from c [] = []"
| "spans_from c (b # bs) =
     \<lparr>block = b, start = c, end = c + (int (length (text b)) + 1)\<rparr> #
     spans_from (c + (int (length (text b)) + 1)) bs"

lemma fold_span_step:
  "fold span_step bs (c, tp, sp) =
     (c + (\<Sum>b\<leftarrow>bs. int (length (text b)) + 1), tp @ map (\<lambda>b. text b @ [10]) bs,
      sp @ spans_from c bs)"
  by (induction bs arbitrary: c tp sp) (simp_all add: span_step_def Let_def algebra_simps)

lemma spans_of_eq: "spans_of bs = spans_from 1 bs"
  by (simp add: spans_of_def layout_def fold_span_step)

lemma full_text_eq: "full_text bs = concat (map (\<lambda>b. text b @ [10]) bs)"
  by (simp add: full_text_def layout_def fold_span_step)

lemma length_spans_from: "length (spans_from c bs) = length bs"
  by (induction bs arbitrary: c) simp_all

lemma spans_from_block: "i < length bs \<Longrightarrow> block (spans_from c bs ! i) = bs ! i"
  by (induction bs arbitrary: c i) (auto simp: nth_Cons split: nat.splits)

lemma spans_from_width:
  "i < length bs \<Longrightarrow>
   end (spans_from c bs ! i) - start (spans_from c bs ! i) = int (length (text (bs ! i))) + 1"
  by (induction bs arbitrary: c i) (auto simp: nth_Cons split: nat.splits)

lemma spans_from_hd: "bs \<noteq> [] \<Longrightarrow> start (hd (spans_from c bs)) = c"
  by (cases bs) simp_all

lemma spans_from_contiguous:
  "Suc i < length bs \<Longrightarrow> end (spans_from c bs ! i) = start (spans_from c bs ! Suc i)"
proof (induction bs arbitrary: c i)
  case Nil
  then show ?case by simp
next
  case (Cons b bs)
  show ?case
  proof (cases i)
    case 0
    with Cons.prems obtain b' bs' where "bs = b' # bs'" by (cases bs) auto
    with 0 show ?thesis by simp
  next
    case (Suc k)
    with Cons.prems have "Suc k < length bs" by simp
    from Cons.IH [OF this] Suc show ?thesis by simp
  qed
qed

section \<open>The three styling loops\<close>

lemma fold_step_concat:
  assumes "\<And>x acc. f x acc = acc @ f x []"
  shows "fold f xs acc = acc @ concat (map (\<lambda>x. f x []) xs)"
proof (induction xs arbitrary: acc)
  case Nil
  show ?case by simp
next
  case (Cons x xs)
  have "fold f (x # xs) acc = fold f xs (f x acc)" by simp
  also have "\<dots> = f x acc @ concat (map (\<lambda>x. f x []) xs)" by (rule Cons)
  also have "f x acc = acc @ f x []" by (rule assms)
  finally show ?case by simp
qed

lemma heading_footer_step_append: "heading_footer_step s requests = requests @ heading_footer_step s []"
  by (simp add: heading_footer_step_def Let_def)

lemma bullet_step_append: "bullet_step s requests = requests @ bullet_step s []"
  by (simp add: bullet_step_def Let_def)

lemma mention_step_Nil:
  "mention_step U s [] =
     (if text (block s) = [] then []
      else map (\<lambda>m. text_style_request (start s + int (fst m)) (start s + int (snd m))
                       (Some True) None None None)
             (finditer (MENTION_RE U) 0 (text (block s))))"
  by (simp add: mention_step_def Let_def fold_snoc_map)

lemma mention_step_append: "mention_step U s requests = requests @ mention_step U s []"
  by (simp add: mention_step_def Let_def fold_snoc_map)

lemma doc_requests_eq:
  "doc_requests U bs =
     InsertText 1 (full_text bs) #
     concat (map (\<lambda>s. heading_footer_step s []) (spans_of bs)) @
     concat (map (\<lambda>s. bullet_step s []) (spans_of bs)) @
     concat (map (\<lambda>s. mention_step U s []) (spans_of bs))"
proof -
  have a: "fold heading_footer_step sp acc = acc @ concat (map (\<lambda>s. heading_footer_step s []) sp)"
    for sp acc by (rule fold_step_concat) (rule heading_footer_step_append)
  have b: "fold bullet_step sp acc = acc @ concat (map (\<lambda>s. bullet_step s []) sp)"
    for sp acc by (rule fold_step_concat) (rule bullet_step_append)
  have c: "fold (mention_step U) sp acc = acc @ concat (map (\<lambda>s. mention_step U s []) sp)"
    for sp acc by (rule fold_step_concat) (rule mention_step_append)
  show ?thesis by (simp add: doc_requests_def Let_def a b c)
qed

section \<open>Lines\<close>

lemma splitlines_Nil: "splitlines [] = []"
  by (simp add: splitlines.simps)

lemma splitlines_append_newline:
  "s \<noteq> [] \<Longrightarrow> \<not> is_linebreak (last s) \<Longrightarrow> splitlines (s @ [10]) = splitlines s"
proof (induction s rule: splitlines.induct)
  case (1 s)
  let ?nb = "\<lambda>c. \<not> is_linebreak c"
  have lb10: "is_linebreak 10" by (simp add: is_linebreak_def)
  show ?case
  proof (cases "dropWhile ?nb s")
    case Nil
    then have all: "\<forall>c\<in>set s. ?nb c" by simp
    then have tw: "takeWhile ?nb (s @ [10]) = s" and dw: "dropWhile ?nb (s @ [10]) = [10]"
      using lb10 by simp_all
    from all have tw': "takeWhile ?nb s = s" by simp
    show ?thesis
      apply (subst splitlines.simps [of "s @ [10]"])
      apply (subst splitlines.simps [of s])
      apply (simp only: tw dw tw' Nil list.case)
      apply (simp add: splitlines.simps [of "[]"] "1.prems"(1))
      done
  next
    case (Cons c cs)
    then have ex: "\<exists>x\<in>set s. \<not> ?nb x"
      by (metis dropWhile_eq_Nil_conv list.distinct(1))
    from ex obtain x where x: "x \<in> set s" "\<not> ?nb x" by blast
    have tw: "takeWhile ?nb (s @ [10]) = takeWhile ?nb s"
      using takeWhile_append1 [of x s ?nb "[10]"] x by blast
    have "dropWhile ?nb (s @ [10]) = dropWhile ?nb s @ [10]"
      using dropWhile_append1 [of x s ?nb "[10]"] x by blast
    with Cons have dw: "dropWhile ?nb (s @ [10]) = c # cs @ [10]" by simp
    have clb: "is_linebreak c"
      using Cons hd_dropWhile [of ?nb s] by simp
    have s_eq: "s = takeWhile ?nb s @ c # cs"
      using Cons takeWhile_dropWhile_id [of ?nb s] by simp
    have cs_ne: "cs \<noteq> []"
    proof
      assume "cs = []"
      with s_eq have "s = takeWhile ?nb s @ [c]" by simp
      then have "last s = c" by (metis last_snoc)
      with clb "1.prems"(2) show False by simp
    qed
    have last_cs: "last cs = last s"
      using s_eq cs_ne by (metis last_appendR last_ConsR list.distinct(1))
    let ?r = "if c = 13 \<and> take 1 cs = [10] then tl cs else cs"
    have r_ne: "?r \<noteq> []"
    proof
      assume e: "?r = []"
      with cs_ne have "c = 13 \<and> take 1 cs = [10] \<and> tl cs = []" by (auto split: if_splits)
      then have "cs = [10]" using cs_ne by (cases cs) auto
      with last_cs lb10 "1.prems"(2) show False by simp
    qed
    have last_r: "last ?r = last s"
      using r_ne last_cs cs_ne by (auto simp: last_tl split: if_splits)
    have r_app: "(if c = 13 \<and> take 1 (cs @ [10]) = [10] then tl (cs @ [10]) else cs @ [10]) = ?r @ [10]"
      using cs_ne by (cases cs) auto
    from "1.IH" [OF "1.prems"(1) Cons r_ne] last_r "1.prems"(2)
    have ih: "splitlines (?r @ [10]) = splitlines ?r" by simp
    show ?thesis
      using "1.prems"(1) Cons
      apply (subst splitlines.simps [of "s @ [10]"])
      apply (subst splitlines.simps [of s])
      apply (simp only: tw dw r_app ih list.case)
      apply simp
      done
  qed
qed

section \<open>Empty input\<close>

text \<open>
  Claim C1, as the specification states it: for the empty input the parser produces no
  block, the assembled text is empty, and the compiler emits no operation at all. The
  third part fails: the insert-text request is appended before any loop runs.
\<close>

theorem C1_empty_input_counterexample:
  "\<not> (parse_markdown [] = [] \<and> full_text (parse_markdown []) = [] \<and>
      markdown_to_google_doc (\<lambda>c. False) [] = [])"
  by (simp add: markdown_to_google_doc_def doc_requests_eq)

text \<open>
  Claim C1, amended: for the empty input the parser produces no block, the assembled text
  is empty, and the compiler emits exactly one operation, the insertion of the empty text
  at index 1.
\<close>

theorem C1_empty_input:
  "parse_markdown [] = [] \<and> full_text (parse_markdown []) = [] \<and>
   markdown_to_google_doc U [] = [InsertText 1 []]"
  by (simp add: markdown_to_google_doc_def doc_requests_eq parse_markdown_map splitlines_Nil
      full_text_eq spans_of_eq)

section \<open>One block per line\<close>

text \<open>
  Claim C2, as the specification states it, asks for a trailing blank block when the
  input ends in a newline. The text \<open>a\<close> followed by a newline is one line and gives one
  paragraph block, with no blank block behind it.
\<close>

theorem C2_block_count_counterexample:
  "length (parse_markdown (u ''a'' @ [10])) = 1 \<and>
   kind (last (parse_markdown (u ''a'' @ [10]))) \<noteq> u ''blank''"
  by (simp add: parse_defs)

text \<open>
  Claim C2, amended: the parser produces exactly one block per line of
  \<open>str.splitlines\<close>, in the order of the lines, so the number of blocks is the number of
  those lines; and a newline behind a text that does not already end in a line boundary
  ends the last line without starting another, so it adds no block.
\<close>

theorem C2_block_count:
  "length (parse_markdown md_text) = length (splitlines md_text) \<and>
   (\<forall>i < length (splitlines md_text). parse_markdown md_text ! i = parse_line (splitlines md_text ! i)) \<and>
   (md_text \<noteq> [] \<and> \<not> is_linebreak (last md_text) \<longrightarrow>
      parse_markdown (md_text @ [10]) = parse_markdown md_text)"
  by (simp add: parse_markdown_map splitlines_append_newline)

theorem C2_block_count_witness:
  "length (parse_markdown (u ''a'' @ [10] @ u ''b'')) = length (splitlines (u ''a'' @ [10] @ u ''b'')) \<and>
   length (splitlines (u ''a'' @ [10] @ u ''b'')) = 2 \<and>
   parse_markdown (u ''a'' @ [10] @ u ''b'') ! 1 = parse_line (splitlines (u ''a'' @ [10] @ u ''b'') ! 1) \<and>
   u ''a'' @ [10] @ u ''b'' \<noteq> [] \<and> \<not> is_linebreak (last (u ''a'' @ [10] @ u ''b'')) \<and>
   parse_markdown ((u ''a'' @ [10] @ u ''b'') @ [10]) = parse_markdown (u ''a'' @ [10] @ u ''b'')"
proof -
  have n: "length (splitlines (u ''a'' @ [10] @ u ''b'')) = 2"
    by (simp add: splitlines.simps text_defs)
  have h: "u ''a'' @ [10] @ u ''b'' \<noteq> [] \<and> \<not> is_linebreak (last (u ''a'' @ [10] @ u ''b''))"
    by (simp add: text_defs)
  from C2_block_count [of "u ''a'' @ [10] @ u ''b''"] n h show ?thesis by simp
qed

section \<open>Spans\<close>

text \<open>
  Claim C4: for every block sequence there is one span per block, in block order; the
  first span starts at 1; each span ends where the next one starts; and every span is
  one longer than its block's text, a blank block's span having length 1.
\<close>

theorem C4_spans:
  "length (spans_of bs) = length bs \<and>
   (bs \<noteq> [] \<longrightarrow> start (hd (spans_of bs)) = 1) \<and>
   (\<forall>i. Suc i < length bs \<longrightarrow> end (spans_of bs ! i) = start (spans_of bs ! Suc i)) \<and>
   (\<forall>i < length bs. block (spans_of bs ! i) = bs ! i \<and>
      end (spans_of bs ! i) - start (spans_of bs ! i) = int (length (text (bs ! i))) + 1)"
  by (simp add: spans_of_eq length_spans_from spans_from_hd spans_from_contiguous
      spans_from_block spans_from_width)

theorem C4_spans_witness:
  "length (spans_of [Block (u ''h1'') (u ''Title'') 0 False, Block (u ''blank'') [] 0 False]) = 2 \<and>
   start (hd (spans_of [Block (u ''h1'') (u ''Title'') 0 False, Block (u ''blank'') [] 0 False])) = 1 \<and>
   end (spans_of [Block (u ''h1'') (u ''Title'') 0 False, Block (u ''blank'') [] 0 False] ! 0) =
     start (spans_of [Block (u ''h1'') (u ''Title'') 0 False, Block (u ''blank'') [] 0 False] ! Suc 0) \<and>
   end (spans_of [Block (u ''h1'') (u ''Title'') 0 False, Block (u ''blank'') [] 0 False] ! 1) -
     start (spans_of [Block (u ''h1'') (u ''Title'') 0 False, Block (u ''blank'') [] 0 False] ! 1) = 1"
  using C4_spans [of "[Block (u ''h1'') (u ''Title'') 0 False, Block (u ''blank'') [] 0 False]"]
  by (simp add: Block_def)

section \<open>The assembled text\<close>

text \<open>
  Claim C5: the text that the compiler assembles, and inserts with its first request, is
  the concatenation, in block order, of each block's text followed by a newline.
\<close>

theorem C5_full_text:
  "full_text bs = concat (map (\<lambda>b. text b @ [10]) bs) \<and>
   hd (doc_requests U bs) = InsertText 1 (concat (map (\<lambda>b. text b @ [10]) bs))"
  by (simp add: doc_requests_eq full_text_eq)

section \<open>Order of the requests\<close>

definition is_insert_text :: "request \<Rightarrow> bool" where
  "is_insert_text r = (case r of InsertText i t \<Rightarrow> True | _ \<Rightarrow> False)"

definition is_heading_footer_op :: "request \<Rightarrow> bool" where
  "is_heading_footer_op r =
     (case r of
        UpdateParagraphStyle a z st f \<Rightarrow>
          namedStyleType st \<in> {Some (u ''HEADING_1''), Some (u ''HEADING_2''), Some (u ''HEADING_3'')}
          \<and> indentStart st = None \<and> f = u ''namedStyleType''
      | UpdateTextStyle a z st f \<Rightarrow>
          bold st = None \<and> italic st = Some True \<and> f = u ''italic,fontSize,foregroundColor''
      | _ \<Rightarrow> False)"

definition is_list_op :: "request \<Rightarrow> bool" where
  "is_list_op r =
     (case r of
        CreateParagraphBullets a z preset \<Rightarrow> True
      | UpdateParagraphStyle a z st f \<Rightarrow>
          namedStyleType st = None \<and> indentStart st \<noteq> None \<and> f = u ''indentStart''
      | _ \<Rightarrow> False)"

definition is_mention_op :: "request \<Rightarrow> bool" where
  "is_mention_op r =
     (case r of
        UpdateTextStyle a z st f \<Rightarrow>
          bold st = Some True \<and> italic st = None \<and> fontSize st = None \<and>
          foregroundColor st = None \<and> f = u ''bold''
      | _ \<Rightarrow> False)"

lemmas request_defs = paragraph_style_request_def text_style_request_def Let_def

lemma heading_footer_ops: "list_all is_heading_footer_op (heading_footer_step s [])"
  by (simp add: heading_footer_step_def is_heading_footer_op_def request_defs u_def)

lemma bullet_ops: "list_all is_list_op (bullet_step s [])"
  by (simp add: bullet_step_def is_list_op_def request_defs u_def)

lemma mention_ops: "list_all is_mention_op (mention_step U s [])"
  by (simp add: mention_step_Nil is_mention_op_def request_defs u_def list_all_iff)

lemma list_all_concat_map: "(\<And>x. list_all P (f x)) \<Longrightarrow> list_all P (concat (map f xs))"
  by (induction xs) simp_all

lemma filter_none: "list_all (\<lambda>x. \<not> P x) xs \<Longrightarrow> filter P xs = []"
  by (induction xs) simp_all

lemma filter_all: "list_all P xs \<Longrightarrow> filter P xs = xs"
  by (induction xs) simp_all

lemma list_all_mono: "list_all P xs \<Longrightarrow> (\<And>x. P x \<Longrightarrow> Q x) \<Longrightarrow> list_all Q xs"
  by (induction xs) simp_all

lemmas compile_defs = doc_requests_eq spans_of_eq full_text_eq heading_footer_step_def bullet_step_def
  mention_step_Nil finditer.simps MENTION_RE_def Chr_def is_word_def ascii_alnum_def request_defs Block_def u_def

text \<open>
  Claim C6: the request list of every block sequence starts with its only insert-text
  request, followed by the heading and footer style requests, then by the list requests
  (bullet creation and indent), then by the bold requests of the mentions.
\<close>

theorem C6_order:
  "\<exists>hs ls ms.
     doc_requests U bs = InsertText 1 (full_text bs) # hs @ ls @ ms \<and>
     list_all is_heading_footer_op hs \<and> list_all is_list_op ls \<and> list_all is_mention_op ms \<and>
     filter is_insert_text (doc_requests U bs) = [InsertText 1 (full_text bs)]"
proof -
  let ?hs = "concat (map (\<lambda>s. heading_footer_step s []) (spans_of bs))"
  let ?ls = "concat (map (\<lambda>s. bullet_step s []) (spans_of bs))"
  let ?ms = "concat (map (\<lambda>s. mention_step U s []) (spans_of bs))"
  have h: "list_all is_heading_footer_op ?hs"
    by (rule list_all_concat_map) (rule heading_footer_ops)
  have l: "list_all is_list_op ?ls"
    by (rule list_all_concat_map) (rule bullet_ops)
  have m: "list_all is_mention_op ?ms"
    by (rule list_all_concat_map) (rule mention_ops)
  have nh: "filter is_insert_text ?hs = []"
    by (rule filter_none, rule list_all_mono [OF h])
       (auto simp: is_insert_text_def is_heading_footer_op_def split: request.splits)
  have nl: "filter is_insert_text ?ls = []"
    by (rule filter_none, rule list_all_mono [OF l])
       (auto simp: is_insert_text_def is_list_op_def split: request.splits)
  have nm: "filter is_insert_text ?ms = []"
    by (rule filter_none, rule list_all_mono [OF m])
       (auto simp: is_insert_text_def is_mention_op_def split: request.splits)
  have "filter is_insert_text (doc_requests U bs) = [InsertText 1 (full_text bs)]"
    by (simp add: doc_requests_eq nh nl nm) (simp add: is_insert_text_def)
  with h l m doc_requests_eq [of U bs] show ?thesis by blast
qed

theorem C6_order_witness:
  "doc_requests (\<lambda>c. False)
     [Block (u ''h1'') (u ''T'') 0 False, Block (u ''bullet'') (u ''@a'') 1 False] =
   InsertText 1 (full_text [Block (u ''h1'') (u ''T'') 0 False, Block (u ''bullet'') (u ''@a'') 1 False]) #
   [UpdateParagraphStyle 1 3 \<lparr>namedStyleType = Some (u ''HEADING_1''), indentStart = None\<rparr>
      (u ''namedStyleType'')] @
   [CreateParagraphBullets 3 6 (u ''BULLET_DISC_CIRCLE_SQUARE''),
    UpdateParagraphStyle 3 6 \<lparr>namedStyleType = None, indentStart = Some (18, u ''PT'')\<rparr>
      (u ''indentStart'')] @
   [UpdateTextStyle 3 5
      \<lparr>bold = Some True, italic = None, fontSize = None, foregroundColor = None\<rparr> (u ''bold'')] \<and>
   filter is_insert_text (doc_requests (\<lambda>c. False)
     [Block (u ''h1'') (u ''T'') 0 False, Block (u ''bullet'') (u ''@a'') 1 False]) =
   [InsertText 1 (full_text [Block (u ''h1'') (u ''T'') 0 False, Block (u ''bullet'') (u ''@a'') 1 False])]"
proof -
  from C6_order [of "\<lambda>c. False"
      "[Block (u ''h1'') (u ''T'') 0 False, Block (u ''bullet'') (u ''@a'') 1 False]"]
  have "filter is_insert_text (doc_requests (\<lambda>c. False)
     [Block (u ''h1'') (u ''T'') 0 False, Block (u ''bullet'') (u ''@a'') 1 False]) =
   [InsertText 1 (full_text [Block (u ''h1'') (u ''T'') 0 False, Block (u ''bullet'') (u ''@a'') 1 False])]"
    by blast
  then show ?thesis by (simp add: compile_defs)
qed

section \<open>Mentions\<close>

definition is_bold_op :: "request \<Rightarrow> bool" where
  "is_bold_op r = (case r of UpdateTextStyle a z st f \<Rightarrow> bold st = Some True | _ \<Rightarrow> False)"

text \<open>
  Claim C7: the bold requests of the request list are, span by span and whatever the
  block's kind, one request for each match of \<open>MENTION_RE\<close> in the block's text, over
  the range from the span's start plus the start of the match to the span's start plus
  the end of the match; a span whose text is empty has none.
\<close>

theorem C7_mentions:
  "filter is_bold_op (doc_requests U bs) =
     concat (map (\<lambda>s. if text (block s) = [] then []
                        else map (\<lambda>m. text_style_request (start s + int (fst m)) (start s + int (snd m))
                                          (Some True) None None None)
                               (finditer (MENTION_RE U) 0 (text (block s))))
               (spans_of bs))"
proof -
  let ?hs = "concat (map (\<lambda>s. heading_footer_step s []) (spans_of bs))"
  let ?ls = "concat (map (\<lambda>s. bullet_step s []) (spans_of bs))"
  let ?ms = "concat (map (\<lambda>s. mention_step U s []) (spans_of bs))"
  have h: "list_all is_heading_footer_op ?hs"
    by (rule list_all_concat_map) (rule heading_footer_ops)
  have l: "list_all is_list_op ?ls"
    by (rule list_all_concat_map) (rule bullet_ops)
  have m: "list_all is_mention_op ?ms"
    by (rule list_all_concat_map) (rule mention_ops)
  have nh: "filter is_bold_op ?hs = []"
    by (rule filter_none, rule list_all_mono [OF h])
       (auto simp: is_bold_op_def is_heading_footer_op_def split: request.splits)
  have nl: "filter is_bold_op ?ls = []"
    by (rule filter_none, rule list_all_mono [OF l])
       (auto simp: is_bold_op_def is_list_op_def split: request.splits)
  have nm: "filter is_bold_op ?ms = ?ms"
    by (rule filter_all, rule list_all_mono [OF m])
       (auto simp: is_bold_op_def is_mention_op_def split: request.splits)
  have "filter is_bold_op (doc_requests U bs) = ?ms"
    by (simp add: doc_requests_eq nh nl nm) (simp add: is_bold_op_def)
  then show ?thesis by (simp add: mention_step_Nil)
qed

theorem C7_mentions_witness:
  "filter is_bold_op (doc_requests (\<lambda>c. False)
      [Block (u ''p'') (u ''Ping @alice and @bob_2 please'') 0 False, Block (u ''blank'') [] 0 False]) =
   [UpdateTextStyle 6 12
      \<lparr>bold = Some True, italic = None, fontSize = None, foregroundColor = None\<rparr> (u ''bold''),
    UpdateTextStyle 17 23
      \<lparr>bold = Some True, italic = None, fontSize = None, foregroundColor = None\<rparr> (u ''bold'')]"
  using C7_mentions [of "\<lambda>c. False"
      "[Block (u ''p'') (u ''Ping @alice and @bob_2 please'') 0 False, Block (u ''blank'') [] 0 False]"]
  by (simp add: compile_defs)

section \<open>Indentation\<close>

definition indent_ops_over :: "int \<Rightarrow> int \<Rightarrow> request list \<Rightarrow> request list" where
  "indent_ops_over a z rs =
     filter (\<lambda>r. case r of
                   UpdateParagraphStyle a' z' st f \<Rightarrow> a' = a \<and> z' = z \<and> indentStart st \<noteq> None
                 | _ \<Rightarrow> False) rs"

lemma spans_from_start_ge: "j < length bs \<Longrightarrow> c \<le> start (spans_from c bs ! j)"
proof (induction bs arbitrary: c j)
  case Nil
  then show ?case by simp
next
  case (Cons b bs)
  show ?case
  proof (cases j)
    case 0
    then show ?thesis by simp
  next
    case (Suc k)
    with Cons.prems have "k < length bs" by simp
    from Cons.IH [OF this, of "c + (int (length (text b)) + 1)"] Suc show ?thesis by simp
  qed
qed

lemma spans_from_start_less:
  "i < j \<Longrightarrow> j < length bs \<Longrightarrow> start (spans_from c bs ! i) < start (spans_from c bs ! j)"
proof (induction bs arbitrary: c i j)
  case Nil
  then show ?case by simp
next
  case (Cons b bs)
  from Cons.prems obtain k where j: "j = Suc k" by (cases j) auto
  with Cons.prems have k: "k < length bs" by simp
  show ?case
  proof (cases i)
    case 0
    from spans_from_start_ge [OF k, of "c + (int (length (text b)) + 1)"] 0 j show ?thesis by simp
  next
    case (Suc i')
    with Cons.prems j have "i' < k" by simp
    from Cons.IH [OF this k] Suc j show ?thesis by simp
  qed
qed

lemma spans_from_start_inj:
  "i < length bs \<Longrightarrow> j < length bs \<Longrightarrow> i \<noteq> j \<Longrightarrow> start (spans_from c bs ! i) \<noteq> start (spans_from c bs ! j)"
  using spans_from_start_less [of i j bs c] spans_from_start_less [of j i bs c]
  by (cases "i < j") auto

lemma concat_map_Nil: "(\<And>x. x \<in> set xs \<Longrightarrow> f x = []) \<Longrightarrow> concat (map f xs) = []"
  by (induction xs) simp_all

lemma concat_map_single:
  assumes "i < length xs" and "\<And>j. j < length xs \<Longrightarrow> j \<noteq> i \<Longrightarrow> f (xs ! j) = []"
  shows "concat (map f xs) = f (xs ! i)"
proof -
  have xs: "xs = take i xs @ xs ! i # drop (Suc i) xs"
    using assms(1) by (rule id_take_nth_drop)
  have a: "concat (map f (take i xs)) = []"
  proof (rule concat_map_Nil)
    fix x assume "x \<in> set (take i xs)"
    then obtain k where k: "k < length (take i xs)" "x = take i xs ! k"
      by (metis in_set_conv_nth)
    then have "k < i" "k < length xs" "x = xs ! k" using assms(1) by simp_all
    with assms(2) [of k] show "f x = []" by simp
  qed
  have b: "concat (map f (drop (Suc i) xs)) = []"
  proof (rule concat_map_Nil)
    fix x assume "x \<in> set (drop (Suc i) xs)"
    then obtain k where k: "k < length (drop (Suc i) xs)" "x = drop (Suc i) xs ! k"
      by (metis in_set_conv_nth)
    then have "Suc i + k < length xs" "x = xs ! (Suc i + k)" by simp_all
    with assms(2) [of "Suc i + k"] show "f x = []" by simp
  qed
  have "concat (map f xs) = concat (map f (take i xs @ xs ! i # drop (Suc i) xs))"
    using xs by simp
  also have "\<dots> = concat (map f (take i xs)) @ f (xs ! i) @ concat (map f (drop (Suc i) xs))"
    by simp
  also have "\<dots> = f (xs ! i)"
    unfolding a b by simp
  finally show ?thesis .
qed

text \<open>
  Claim C8: for a bullet or checkbox block, the request list holds an indent request
  over the block's span if and only if the block's level is greater than 0; there is then
  exactly one, and its magnitude is 18 points times the level.
\<close>

theorem C8_indent:
  assumes "i < length bs" and "kind (bs ! i) = u ''bullet'' \<or> kind (bs ! i) = u ''checkbox''"
  shows "indent_ops_over (start (spans_of bs ! i)) (end (spans_of bs ! i)) (doc_requests U bs) =
     (if level (bs ! i) > 0
      then [UpdateParagraphStyle (start (spans_of bs ! i)) (end (spans_of bs ! i))
              \<lparr>namedStyleType = None, indentStart = Some (18 * level (bs ! i), u ''PT'')\<rparr>
              (u ''indentStart'')]
      else [])"
proof -
  let ?a = "start (spans_of bs ! i)" and ?z = "end (spans_of bs ! i)"
  define P where "P = (\<lambda>r. case r of
                   UpdateParagraphStyle a' z' st f \<Rightarrow> a' = ?a \<and> z' = ?z \<and> indentStart st \<noteq> None
                 | _ \<Rightarrow> False)"
  let ?hs = "concat (map (\<lambda>s. heading_footer_step s []) (spans_of bs))"
  let ?ls = "concat (map (\<lambda>s. bullet_step s []) (spans_of bs))"
  let ?ms = "concat (map (\<lambda>s. mention_step U s []) (spans_of bs))"
  have h: "list_all is_heading_footer_op ?hs"
    by (rule list_all_concat_map) (rule heading_footer_ops)
  have m: "list_all is_mention_op ?ms"
    by (rule list_all_concat_map) (rule mention_ops)
  have nh: "filter P ?hs = []"
    by (rule filter_none, rule list_all_mono [OF h])
       (auto simp: P_def is_heading_footer_op_def split: request.splits)
  have nm: "filter P ?ms = []"
    by (rule filter_none, rule list_all_mono [OF m])
       (auto simp: P_def is_mention_op_def split: request.splits)
  have len: "length (spans_of bs) = length bs" by (simp add: spans_of_eq length_spans_from)
  have other: "filter P (bullet_step (spans_of bs ! j) []) = []"
    if "j < length (spans_of bs)" "j \<noteq> i" for j
    using that assms(1) spans_from_start_inj [of j bs i 1]
    by (simp add: P_def bullet_step_def request_defs spans_of_eq length_spans_from)
  have blk: "block (spans_of bs ! i) = bs ! i"
    using assms(1) by (simp add: spans_of_eq spans_from_block)
  have "filter P ?ls = concat (map (\<lambda>s. filter P (bullet_step s [])) (spans_of bs))"
    by (simp add: filter_concat comp_def)
  also have "\<dots> = filter P (bullet_step (spans_of bs ! i) [])"
    using assms(1) len other by (intro concat_map_single) simp_all
  finally have ls: "filter P ?ls = filter P (bullet_step (spans_of bs ! i) [])" .
  have ins: "\<not> P (InsertText 1 (full_text bs))" by (simp add: P_def)
  have "indent_ops_over ?a ?z (doc_requests U bs) = filter P (doc_requests U bs)"
    by (simp add: indent_ops_over_def P_def)
  also have "\<dots> = filter P (bullet_step (spans_of bs ! i) [])"
    unfolding doc_requests_eq filter.simps filter_append nh nm ls using ins by simp
  also have "\<dots> = (if level (bs ! i) > 0
      then [UpdateParagraphStyle ?a ?z
              \<lparr>namedStyleType = None, indentStart = Some (18 * level (bs ! i), u ''PT'')\<rparr>
              (u ''indentStart'')]
      else [])"
    using assms(2) by (auto simp add: P_def bullet_step_def request_defs blk)
  finally show ?thesis .
qed

theorem C8_indent_witness:
  "0 < length [Block (u ''bullet'') (u ''nested'') 1 False] \<and>
   kind ([Block (u ''bullet'') (u ''nested'') 1 False] ! 0) = u ''bullet'' \<and>
   indent_ops_over 1 8 (doc_requests (\<lambda>c. False) [Block (u ''bullet'') (u ''nested'') 1 False]) =
     [UpdateParagraphStyle 1 8 \<lparr>namedStyleType = None, indentStart = Some (18, u ''PT'')\<rparr>
        (u ''indentStart'')]"
proof -
  have k: "kind ([Block (u ''bullet'') (u ''nested'') 1 False] ! 0) = u ''bullet''"
    by (simp add: Block_def)
  from C8_indent [of 0 "[Block (u ''bullet'') (u ''nested'') 1 False]" "\<lambda>c. False"] k
  show ?thesis by (simp add: spans_of_eq Block_def u_def)
qed

section \<open>Matching the patterns\<close>

lemma rems_Star_ne: "rems (Star p) x \<noteq> []"
proof -
  have "rems (Star p) (i, s) \<noteq> []" for i s
    by (induction s arbitrary: i) simp_all
  then show ?thesis by (cases x) simp
qed

lemma rems_Star_Cls:
  assumes "\<And>c. q c \<Longrightarrow> \<not> p c"
  shows "rems (Seq (Star p) (Seq (Cls q) r)) (i, s) =
         rems (Seq (Cls q) r) (i + length (takeWhile p s), dropWhile p s)"
proof (induction s arbitrary: i)
  case Nil
  show ?case by simp
next
  case (Cons c cs)
  show ?case
  proof (cases "p c")
    case True
    then have "\<not> q c" using assms by blast
    with True Cons [of "Suc i"] show ?thesis by simp
  next
    case False
    then show ?thesis by simp
  qed
qed

text \<open>
  What the three line patterns accept, read off the text behind the leading whitespace.
\<close>

fun checkbox_shape :: "str \<Rightarrow> bool" where
  "checkbox_shape (a # w # b # c # d # v # rest) =
     (a = 45 \<and> is_space w \<and> b = 91 \<and> (c = 32 \<or> c = 120 \<or> c = 88) \<and> d = 93 \<and> is_space v)"
| "checkbox_shape _ = False"

fun checked_shape :: "str \<Rightarrow> bool" where
  "checked_shape (a # w # b # c # d # v # rest) =
     (a = 45 \<and> is_space w \<and> b = 91 \<and> (c = 120 \<or> c = 88) \<and> d = 93 \<and> is_space v)"
| "checked_shape _ = False"

fun bullet_shape :: "str \<Rightarrow> bool" where
  "bullet_shape (a # w # rest) = ((a = 45 \<or> a = 42) \<and> is_space w)"
| "bullet_shape _ = False"

lemma not_space_marks: "\<not> is_space 45" "\<not> is_space 42" "\<not> is_space 35"
  by (simp_all add: is_space_def)

lemma checkbox_tail:
  "rems (seq [Chr CHR ''-'', Cls is_space, Chr CHR ''['',
     Alt (Chr CHR '' '') (Alt (Chr CHR ''x'') (Chr CHR ''X'')), Chr CHR '']'', Plus is_space])
       (n, r) \<noteq> [] \<longleftrightarrow> checkbox_shape r"
  by (cases r rule: checkbox_shape.cases) (auto simp add: Chr_def rems_Star_ne)

lemma checked_tail:
  "rems (seq [Chr CHR ''-'', Cls is_space, Chr CHR ''['',
     Alt (Chr CHR ''x'') (Chr CHR ''X''), Chr CHR '']'', Plus is_space])
       (n, r) \<noteq> [] \<longleftrightarrow> checked_shape r"
  by (cases r rule: checked_shape.cases) (auto simp add: Chr_def rems_Star_ne)

lemma bullet_tail:
  "rems (seq [Cls (\<lambda>c. c \<in> set (u ''-*'')), Plus is_space]) (n, r) \<noteq> [] \<longleftrightarrow> bullet_shape r"
  by (cases r rule: bullet_shape.cases) (auto simp add: u_def rems_Star_ne)

lemma re_match_ne: "re_match r s \<noteq> None \<longleftrightarrow> rems r (0, s) \<noteq> []"
  by (simp add: re_match_def split: list.splits)

lemma checkbox_match: "re_match checkbox_re raw \<noteq> None \<longleftrightarrow> checkbox_shape (dropWhile is_space raw)"
proof -
  have "rems checkbox_re (0, raw) =
      rems (seq [Chr CHR ''-'', Cls is_space, Chr CHR ''['',
     Alt (Chr CHR '' '') (Alt (Chr CHR ''x'') (Chr CHR ''X'')), Chr CHR '']'', Plus is_space])
       (0 + length (takeWhile is_space raw), dropWhile is_space raw)"
    unfolding checkbox_re_def seq.simps Chr_def
    apply (simp del: rems.simps add: rems.simps(7)[of Bol] rems.simps(9))
    apply (subst rems_Star_Cls)
    apply (simp_all add: not_space_marks)
    done
  then show ?thesis by (simp only: re_match_ne checkbox_tail)
qed

lemma checked_match: "re_match checked_re raw \<noteq> None \<longleftrightarrow> checked_shape (dropWhile is_space raw)"
proof -
  have "rems checked_re (0, raw) =
      rems (seq [Chr CHR ''-'', Cls is_space, Chr CHR ''['',
     Alt (Chr CHR ''x'') (Chr CHR ''X''), Chr CHR '']'', Plus is_space])
       (0 + length (takeWhile is_space raw), dropWhile is_space raw)"
    unfolding checked_re_def seq.simps Chr_def
    apply (simp del: rems.simps add: rems.simps(7)[of Bol] rems.simps(9))
    apply (subst rems_Star_Cls)
    apply (simp_all add: not_space_marks)
    done
  then show ?thesis by (simp only: re_match_ne checked_tail)
qed

lemma bullet_match: "re_match bullet_re raw \<noteq> None \<longleftrightarrow> bullet_shape (dropWhile is_space raw)"
proof -
  have "rems bullet_re (0, raw) =
      rems (seq [Cls (\<lambda>c. c \<in> set (u ''-*'')), Plus is_space])
       (0 + length (takeWhile is_space raw), dropWhile is_space raw)"
    unfolding bullet_re_def seq.simps
    apply (simp del: rems.simps add: rems.simps(7)[of Bol] rems.simps(9))
    apply (subst rems_Star_Cls)
    apply (auto simp add: not_space_marks u_def)
    done
  then show ?thesis by (simp only: re_match_ne bullet_tail)
qed

lemma checkbox_shape_bullet: "checkbox_shape r \<Longrightarrow> bullet_shape r"
  by (cases r rule: checkbox_shape.cases) simp_all

lemma checkbox_shape_checked:
  "checkbox_shape r \<Longrightarrow> checked_shape r \<longleftrightarrow> (r ! 3 = 120 \<or> r ! 3 = 88)"
  by (cases r rule: checkbox_shape.cases) simp_all

section \<open>Stripping\<close>

lemma dropWhile_all_iff: "(\<forall>c\<in>set (dropWhile p xs). p c) \<longleftrightarrow> dropWhile p xs = []"
proof
  assume a: "\<forall>c\<in>set (dropWhile p xs). p c"
  show "dropWhile p xs = []"
  proof (rule ccontr)
    assume n: "dropWhile p xs \<noteq> []"
    then have "\<not> p (hd (dropWhile p xs))" by (rule hd_dropWhile)
    moreover from n have "hd (dropWhile p xs) \<in> set (dropWhile p xs)" by simp
    ultimately show False using a by blast
  qed
next
  assume "dropWhile p xs = []"
  then show "\<forall>c\<in>set (dropWhile p xs). p c" by (simp only: list.set ball_empty)
qed

lemma strip_Nil_iff: "strip s = [] \<longleftrightarrow> (\<forall>c\<in>set s. is_space c)"
proof -
  have "strip s = [] \<longleftrightarrow> (\<forall>c\<in>set (dropWhile is_space (rev s)). is_space c)"
    by (simp add: strip_def lstrip_with_def rstrip_with_def)
  also have "\<dots> \<longleftrightarrow> dropWhile is_space (rev s) = []"
    by (rule dropWhile_all_iff)
  also have "\<dots> \<longleftrightarrow> (\<forall>c\<in>set s. is_space c)" by simp
  finally show ?thesis .
qed

lemma rstrip_with_Cons: "\<not> p a \<Longrightarrow> rstrip_with p (a # t) = a # rstrip_with p t"
proof -
  assume a: "\<not> p a"
  show ?thesis
  proof (cases "\<forall>x\<in>set t. p x")
    case True
    then have r: "dropWhile p (rev t) = []" by simp
    have "dropWhile p (rev t @ [a]) = dropWhile p [a]"
      by (rule dropWhile_append2) (use True in auto)
    with a r show ?thesis by (simp add: rstrip_with_def)
  next
    case False
    then obtain x where "x \<in> set (rev t)" "\<not> p x" by auto
    then have "dropWhile p (rev t @ [a]) = dropWhile p (rev t) @ [a]"
      using dropWhile_append1 [of x "rev t" p "[a]"] by blast
    then show ?thesis by (simp add: rstrip_with_def)
  qed
qed

lemma strip_Cons: "\<not> is_space a \<Longrightarrow> strip (a # t) = a # rstrip_with is_space t"
  by (simp add: strip_def rstrip_with_Cons lstrip_with_def)

lemma rstrip_chars_id: "10 \<notin> set s \<Longrightarrow> rstrip_chars [10] s = s"
proof -
  assume a: "10 \<notin> set s"
  have "dropWhile (\<lambda>c. c \<in> set [10]) (rev s) = rev s"
  proof (cases "rev s")
    case Nil
    then show ?thesis by simp
  next
    case (Cons x xs)
    then have "x \<in> set s" by (metis list.set_intros(1) set_rev)
    with a have "x \<noteq> 10" by auto
    with Cons show ?thesis by simp
  qed
  then show ?thesis by (simp add: rstrip_chars_def rstrip_with_def)
qed

lemma startswith_Cons: "startswith (a # p) s \<longleftrightarrow> (\<exists>t. s = a # t \<and> startswith p t)"
  by (cases s) (auto simp: startswith_def)

lemma startswith_Nil: "startswith [] s"
  by (simp add: startswith_def)

section \<open>Kinds\<close>

lemma kind_Block: "kind (Block k t l c) = k" "text (Block k t l c) = t"
  "level (Block k t l c) = l" "checked (Block k t l c) = c"
  by (simp_all add: Block_def)

lemma kind_parse_line:
  "kind (parse_line line) =
     (let raw = rstrip_chars [10] line in
      if strip raw = [] then u ''blank''
      else if startswith (u ''# '') raw then u ''h1''
      else if startswith (u ''## '') raw then u ''h2''
      else if startswith (u ''### '') raw then u ''h3''
      else if re_match checkbox_re raw \<noteq> None then u ''checkbox''
      else if re_match bullet_re raw \<noteq> None then u ''bullet''
      else if startswith (u ''Meeting recorded by:'') raw \<or> startswith (u ''Duration:'') raw
        then u ''footer''
      else if strip raw = u ''---'' then u ''blank''
      else u ''p'')"
  by (simp add: parse_line_def Let_def kind_Block)

lemma hash_line:
  assumes "raw = 35 # t"
  shows "strip raw \<noteq> []" and "re_match checkbox_re raw = None" and "re_match bullet_re raw = None"
    and "\<not> startswith (u ''Meeting recorded by:'') raw" and "\<not> startswith (u ''Duration:'') raw"
    and "strip raw \<noteq> u ''---''"
proof -
  show "strip raw \<noteq> []" using assms by (simp add: strip_Cons not_space_marks)
  have d: "dropWhile is_space raw = raw" using assms by (simp add: not_space_marks)
  have "\<not> checkbox_shape raw" using assms by (cases t rule: checkbox_shape.cases) simp_all
  with checkbox_match [of raw] d show "re_match checkbox_re raw = None" by simp
  have "\<not> bullet_shape raw" using assms by (cases t) simp_all
  with bullet_match [of raw] d show "re_match bullet_re raw = None" by simp
  show "\<not> startswith (u ''Meeting recorded by:'') raw" using assms by (simp add: u_def startswith_def)
  show "\<not> startswith (u ''Duration:'') raw" using assms by (simp add: u_def startswith_def)
  show "strip raw \<noteq> u ''---''" using assms by (simp add: strip_Cons not_space_marks u_def)
qed

section \<open>Headings\<close>

text \<open>
  Claim C10: a line is a heading of level 1, 2 or 3 exactly when it starts with the
  prefix \<open>"# "\<close>, \<open>"## "\<close> or \<open>"### "\<close>. A line that starts with \<open>#\<close> and with none
  of the three prefixes is a paragraph whose text is the whole stripped line: so is a line
  of four or more \<open>#\<close> followed by a space, and a line where the first \<open>#\<close> is followed
  by neither a space nor another \<open>#\<close>.
\<close>

theorem C10_headings:
  "(kind (parse_line line) = u ''h1'' \<longleftrightarrow> startswith (u ''# '') (rstrip_chars [10] line)) \<and>
   (kind (parse_line line) = u ''h2'' \<longleftrightarrow> startswith (u ''## '') (rstrip_chars [10] line)) \<and>
   (kind (parse_line line) = u ''h3'' \<longleftrightarrow> startswith (u ''### '') (rstrip_chars [10] line)) \<and>
   (startswith (u ''#'') (rstrip_chars [10] line) \<and>
    \<not> startswith (u ''# '') (rstrip_chars [10] line) \<and>
    \<not> startswith (u ''## '') (rstrip_chars [10] line) \<and>
    \<not> startswith (u ''### '') (rstrip_chars [10] line) \<longrightarrow>
      parse_line line = Block (u ''p'') (strip (rstrip_chars [10] line)) 0 False) \<and>
   (4 \<le> n \<and> 10 \<notin> set rest \<longrightarrow>
      parse_line (replicate n 35 @ 32 # rest) =
        Block (u ''p'') (strip (replicate n 35 @ 32 # rest)) 0 False) \<and>
   (c \<noteq> 32 \<and> c \<noteq> 35 \<and> 10 \<notin> set (c # rest') \<longrightarrow>
      parse_line (35 # c # rest') = Block (u ''p'') (strip (35 # c # rest')) 0 False)"
proof -
  define raw where "raw = rstrip_chars [10] line"
  have h1: "strip raw \<noteq> []" if "startswith (u ''# '') raw" 
    using that hash_line(1) [of raw] by (auto simp: u_def startswith_Cons)
  have h2: "strip raw \<noteq> []" if "startswith (u ''## '') raw" 
    using that hash_line(1) [of raw] by (auto simp: u_def startswith_Cons)
  have h3: "strip raw \<noteq> []" if "startswith (u ''### '') raw" 
    using that hash_line(1) [of raw] by (auto simp: u_def startswith_Cons)
  have x12: "\<not> (startswith (u ''# '') raw \<and> startswith (u ''## '') raw)"
    by (auto simp: u_def startswith_Cons)
  have x13: "\<not> (startswith (u ''# '') raw \<and> startswith (u ''### '') raw)"
    by (auto simp: u_def startswith_Cons)
  have x23: "\<not> (startswith (u ''## '') raw \<and> startswith (u ''### '') raw)"
    by (auto simp: u_def startswith_Cons)
  have k: "kind (parse_line line) =
      (if strip raw = [] then u ''blank''
      else if startswith (u ''# '') raw then u ''h1''
      else if startswith (u ''## '') raw then u ''h2''
      else if startswith (u ''### '') raw then u ''h3''
      else if re_match checkbox_re raw \<noteq> None then u ''checkbox''
      else if re_match bullet_re raw \<noteq> None then u ''bullet''
      else if startswith (u ''Meeting recorded by:'') raw \<or> startswith (u ''Duration:'') raw
        then u ''footer''
      else if strip raw = u ''---'' then u ''blank''
      else u ''p'')"
    by (simp add: kind_parse_line raw_def Let_def)
  have a1: "kind (parse_line line) = u ''h1'' \<longleftrightarrow> startswith (u ''# '') raw"
  proof
    assume "startswith (u ''# '') raw"
    with h1 show "kind (parse_line line) = u ''h1''" by (simp add: k)
  next
    assume a: "kind (parse_line line) = u ''h1''"
    show "startswith (u ''# '') raw"
    proof (rule ccontr)
      assume "\<not> startswith (u ''# '') raw"
      then have "kind (parse_line line) \<noteq> u ''h1''" by (simp add: k u_def)
      with a show False by simp
    qed
  qed
  have a2: "kind (parse_line line) = u ''h2'' \<longleftrightarrow> startswith (u ''## '') raw"
  proof
    assume "startswith (u ''## '') raw"
    with h2 x12 show "kind (parse_line line) = u ''h2''" by (simp add: k)
  next
    assume a: "kind (parse_line line) = u ''h2''"
    show "startswith (u ''## '') raw"
    proof (rule ccontr)
      assume "\<not> startswith (u ''## '') raw"
      then have "kind (parse_line line) \<noteq> u ''h2''" by (simp add: k u_def)
      with a show False by simp
    qed
  qed
  have a3: "kind (parse_line line) = u ''h3'' \<longleftrightarrow> startswith (u ''### '') raw"
  proof
    assume "startswith (u ''### '') raw"
    with h3 x13 x23 show "kind (parse_line line) = u ''h3''" by (simp add: k)
  next
    assume a: "kind (parse_line line) = u ''h3''"
    show "startswith (u ''### '') raw"
    proof (rule ccontr)
      assume "\<not> startswith (u ''### '') raw"
      then have "kind (parse_line line) \<noteq> u ''h3''" by (simp add: k u_def)
      with a show False by simp
    qed
  qed
  have gen: "parse_line l = Block (u ''p'') (strip (rstrip_chars [10] l)) 0 False"
    if "startswith (u ''#'') (rstrip_chars [10] l)"
      "\<not> startswith (u ''# '') (rstrip_chars [10] l)"
      "\<not> startswith (u ''## '') (rstrip_chars [10] l)"
      "\<not> startswith (u ''### '') (rstrip_chars [10] l)" for l
  proof -
    from that(1) obtain t where t: "rstrip_chars [10] l = 35 # t"
      by (auto simp: u_def startswith_Cons)
    from hash_line [OF t] that(2-4) show ?thesis
      by (simp add: parse_line_def Let_def)
  qed
  have a5: "parse_line (replicate n 35 @ 32 # rest) =
        Block (u ''p'') (strip (replicate n 35 @ 32 # rest)) 0 False"
    if "4 \<le> n" "10 \<notin> set rest"
  proof -
    define m where "m = n - 4"
    from that(1) have n: "n = Suc (Suc (Suc (Suc m)))" by (simp add: m_def)
    have id: "rstrip_chars [10] (replicate n 35 @ 32 # rest) = replicate n 35 @ 32 # rest"
      using that(2) by (intro rstrip_chars_id) auto
    show ?thesis
      using gen [of "replicate n 35 @ 32 # rest"] unfolding id
      by (simp add: n u_def startswith_def)
  qed
  have a6: "parse_line (35 # c # rest') = Block (u ''p'') (strip (35 # c # rest')) 0 False"
    if "c \<noteq> 32" "c \<noteq> 35" "10 \<notin> set (c # rest')"
  proof -
    have id: "rstrip_chars [10] (35 # c # rest') = 35 # c # rest'"
      using that(3) by (intro rstrip_chars_id) auto
    show ?thesis
      using gen [of "35 # c # rest'"] that(1,2) unfolding id
      by (simp add: u_def startswith_def)
  qed
  show ?thesis
    apply (intro conjI)
         apply (rule a1 [unfolded raw_def])
        apply (rule a2 [unfolded raw_def])
       apply (rule a3 [unfolded raw_def])
      apply (rule impI, elim conjE, rule gen; assumption)
     apply (rule impI, elim conjE, rule a5; assumption)
    apply (rule impI, elim conjE, rule a6; assumption)
    done
qed

theorem C10_headings_witness:
  "kind (parse_line (u ''# x'')) = u ''h1'' \<and>
   startswith (u ''#'') (rstrip_chars [10] (u ''# x'')) \<and>
   parse_line (replicate 4 35 @ 32 # u ''x'') = Block (u ''p'') (u ''#### x'') 0 False \<and>
   parse_line (35 # 84 # u ''itle'') = Block (u ''p'') (u ''#Title'') 0 False"
proof -
  have s: "strip (replicate 4 35 @ 32 # u ''x'') = u ''#### x''"
    "strip (35 # 84 # u ''itle'') = u ''#Title''"
    "startswith (u ''# '') (rstrip_chars [10] (u ''# x''))"
    "startswith (u ''#'') (rstrip_chars [10] (u ''# x''))"
    by (simp_all add: text_defs eval_nat_numeral)
  from C10_headings [of "u ''# x''" 4 "u ''x''" 84 "u ''itle''"] s show ?thesis
    by (simp add: u_def)
qed

section \<open>Priority of the line patterns\<close>

text \<open>
  Claim C3: the kind of a line is decided by the first test that succeeds, in the order
  blank, heading 1, heading 2, heading 3, checkbox, bullet, footer, horizontal rule (as
  blank), paragraph. A line that the checkbox pattern matches is also matched by the
  bullet pattern, and it is a checkbox; it is checked exactly when the character between
  the brackets is \<open>x\<close> or \<open>X\<close>.
\<close>

theorem C3_priority:
  "kind (parse_line line) =
     (let raw = rstrip_chars [10] line in
      if strip raw = [] then u ''blank''
      else if startswith (u ''# '') raw then u ''h1''
      else if startswith (u ''## '') raw then u ''h2''
      else if startswith (u ''### '') raw then u ''h3''
      else if re_match checkbox_re raw \<noteq> None then u ''checkbox''
      else if re_match bullet_re raw \<noteq> None then u ''bullet''
      else if startswith (u ''Meeting recorded by:'') raw \<or> startswith (u ''Duration:'') raw
        then u ''footer''
      else if strip raw = u ''---'' then u ''blank''
      else u ''p'') \<and>
   (re_match checkbox_re (rstrip_chars [10] line) \<noteq> None \<longrightarrow>
      re_match bullet_re (rstrip_chars [10] line) \<noteq> None \<and>
      kind (parse_line line) = u ''checkbox'' \<and>
      (checked (parse_line line) \<longleftrightarrow>
         dropWhile is_space (rstrip_chars [10] line) ! 3 = 120 \<or>
         dropWhile is_space (rstrip_chars [10] line) ! 3 = 88))"
proof (intro conjI impI)
  show "kind (parse_line line) =
     (let raw = rstrip_chars [10] line in
      if strip raw = [] then u ''blank''
      else if startswith (u ''# '') raw then u ''h1''
      else if startswith (u ''## '') raw then u ''h2''
      else if startswith (u ''### '') raw then u ''h3''
      else if re_match checkbox_re raw \<noteq> None then u ''checkbox''
      else if re_match bullet_re raw \<noteq> None then u ''bullet''
      else if startswith (u ''Meeting recorded by:'') raw \<or> startswith (u ''Duration:'') raw
        then u ''footer''
      else if strip raw = u ''---'' then u ''blank''
      else u ''p'')"
    by (rule kind_parse_line)
next
  define raw where "raw = rstrip_chars [10] line"
  assume "re_match checkbox_re (rstrip_chars [10] line) \<noteq> None"
  then have m: "re_match checkbox_re raw \<noteq> None" by (simp add: raw_def)
  then have cb: "checkbox_shape (dropWhile is_space raw)" by (simp only: checkbox_match)
  have ne: "\<not> (\<forall>x\<in>set raw. is_space x)"
  proof
    assume "\<forall>x\<in>set raw. is_space x"
    then have "dropWhile is_space raw = []" by simp
    with cb show False by simp
  qed
  then have nb: "strip raw \<noteq> []" by (simp only: strip_Nil_iff not_False_eq_True)
  have nh: "\<not> startswith (u ''# '') raw" "\<not> startswith (u ''## '') raw"
    "\<not> startswith (u ''### '') raw"
    using m hash_line(2) [of raw] by (auto simp: u_def startswith_Cons)
  have pl: "parse_line line = Block (u ''checkbox'') (strip (re_sub_del checkbox_re 0 raw))
          ((int (length raw) - int (length (lstrip_chars [32] raw))) div 2)
          (re_match checked_re raw \<noteq> None)"
    using m nb nh by (simp add: parse_line_def Let_def raw_def)
  show "re_match bullet_re (rstrip_chars [10] line) \<noteq> None"
    using cb checkbox_shape_bullet bullet_match [of raw] by (simp add: raw_def)
  show "kind (parse_line line) = u ''checkbox''"
    by (simp add: pl kind_Block)
  have "checked (parse_line line) \<longleftrightarrow> checked_shape (dropWhile is_space raw)"
    by (simp only: pl kind_Block checked_match)
  also have "\<dots> \<longleftrightarrow> (dropWhile is_space raw ! 3 = 120 \<or> dropWhile is_space raw ! 3 = 88)"
    using cb by (rule checkbox_shape_checked)
  finally show "checked (parse_line line) \<longleftrightarrow>
         dropWhile is_space (rstrip_chars [10] line) ! 3 = 120 \<or>
         dropWhile is_space (rstrip_chars [10] line) ! 3 = 88"
    by (simp add: raw_def)
qed

theorem C3_priority_witness:
  "re_match checkbox_re (rstrip_chars [10] (u ''  - [X] Call bob'')) \<noteq> None \<and>
   re_match bullet_re (rstrip_chars [10] (u ''  - [X] Call bob'')) \<noteq> None \<and>
   kind (parse_line (u ''  - [X] Call bob'')) = u ''checkbox'' \<and>
   checked (parse_line (u ''  - [X] Call bob'')) \<and>
   dropWhile is_space (rstrip_chars [10] (u ''  - [X] Call bob'')) ! 3 = 88"
proof -
  have r: "rstrip_chars [10] (u ''  - [X] Call bob'') = u ''  - [X] Call bob''"
    by (simp add: text_defs)
  have d: "dropWhile is_space (u ''  - [X] Call bob'') = u ''- [X] Call bob''"
    by (simp add: text_defs)
  have m: "re_match checkbox_re (rstrip_chars [10] (u ''  - [X] Call bob'')) \<noteq> None"
    unfolding r checkbox_match d by (simp add: text_defs)
  have x: "dropWhile is_space (rstrip_chars [10] (u ''  - [X] Call bob'')) ! 3 = 88"
    unfolding r d by (simp add: u_def)
  from C3_priority [of "u ''  - [X] Call bob''", THEN conjunct2] m x show ?thesis by simp
qed

section \<open>Re-parsing the reconstruction\<close>
































end
